theory Spec2Isabelle
  imports Complex_Main "HOL-Library.List_Lexorder" "HOL-Library.Char_ord"
    "HOL-Library.Product_Lexorder"
begin

section \<open>Python strings\<close>

text \<open>
  A Python \<open>str\<close> is modelled as a \<open>string\<close>, a list of 8-bit characters read as the
  code points below 256. The functions below are the \<open>str\<close> methods and the regular
  expression substitutions the sources call. Code points from 256 on, and the Unicode
  tables for them, are outside the model.
\<close>

definition is_space :: "char \<Rightarrow> bool" where
  \<comment> \<open>\<open>str.isspace\<close> and the regular expression class \<open>\s\<close> on code points below 256:
      tab, line feed, vertical tab, form feed, carriage return, the four separators
      0x1C to 0x1F, space, next line and no-break space\<close>
  "is_space c = (c \<in> set [CHR 0x09, CHR 0x0A, CHR 0x0B, CHR 0x0C, CHR 0x0D, CHR 0x1C, CHR 0x1D,
                             CHR 0x1E, CHR 0x1F, CHR '' '', CHR 0x85, CHR 0xA0])"

definition is_digit :: "char \<Rightarrow> bool" where
  \<comment> \<open>the regular expression class \<open>\d\<close> and \<open>str.isdigit\<close> on ASCII\<close>
  "is_digit c = (c \<in> set ''0123456789'')"

definition lstrip :: "string \<Rightarrow> string" where
  "lstrip s = dropWhile is_space s"

definition rstrip :: "string \<Rightarrow> string" where
  "rstrip s = rev (dropWhile is_space (rev s))"

definition strip :: "string \<Rightarrow> string" where
  "strip s = rstrip (lstrip s)"

fun startswith :: "string \<Rightarrow> string \<Rightarrow> bool" where
  "startswith s [] = True"
| "startswith [] (p # ps) = False"
| "startswith (c # s) (p # ps) = (c = p \<and> startswith s ps)"

fun contains :: "string \<Rightarrow> string \<Rightarrow> bool" where
  \<comment> \<open>\<open>m in s\<close>\<close>
  "contains [] m = (m = [])"
| "contains (c # s) m = (startswith (c # s) m \<or> contains s m)"

fun find_str :: "string \<Rightarrow> string \<Rightarrow> nat option" where
  \<comment> \<open>\<open>s.find(m)\<close>, with \<open>None\<close> for -1\<close>
  "find_str [] m = (if m = [] then Some 0 else None)"
| "find_str (c # s) m =
     (if startswith (c # s) m then Some 0 else map_option Suc (find_str s m))"

fun replace_char :: "char \<Rightarrow> string \<Rightarrow> string \<Rightarrow> string" where
  \<comment> \<open>\<open>s.replace(old, new)\<close> for a one-character \<open>old\<close>\<close>
  "replace_char old new [] = []"
| "replace_char old new (c # s) =
     (if c = old then new @ replace_char old new s else c # replace_char old new s)"

function collapse_ws :: "string \<Rightarrow> string" where
  \<comment> \<open>\<open>re.sub(r"\s+", " ", s)\<close>: every maximal run of white space becomes one space\<close>
  "collapse_ws [] = []"
| "collapse_ws (c # s) =
     (if is_space c then CHR '' '' # collapse_ws (dropWhile is_space s)
      else c # collapse_ws s)"
  by pat_completeness auto
termination
  by (relation "measure length") (auto simp: length_dropWhile_le le_imp_less_Suc)

definition upper_char :: "char \<Rightarrow> char" where
  "upper_char c =
     (case map_of (zip ''abcdefghijklmnopqrstuvwxyz'' ''ABCDEFGHIJKLMNOPQRSTUVWXYZ'') c of
        Some C \<Rightarrow> C
      | None \<Rightarrow> c)"

definition upper :: "string \<Rightarrow> string" where
  \<comment> \<open>\<open>str.upper\<close> on ASCII; other characters are left as they are\<close>
  "upper s = map upper_char s"

function squeeze_ws :: "string \<Rightarrow> string" where
  \<comment> \<open>\<open>re.sub(r"\s{2,}", " ", s)\<close>: a maximal run of two or more white-space characters
      becomes one space, a single white-space character stays\<close>
  "squeeze_ws [] = []"
| "squeeze_ws (c # s) =
     (if is_space c \<and> takeWhile is_space s \<noteq> []
      then CHR '' '' # squeeze_ws (dropWhile is_space s)
      else c # squeeze_ws s)"
  by pat_completeness auto
termination
  by (relation "measure length") (auto simp: length_dropWhile_le le_imp_less_Suc)

function replace :: "string \<Rightarrow> string \<Rightarrow> string \<Rightarrow> string" where
  \<comment> \<open>\<open>s.replace(old, new)\<close> for a non-empty \<open>old\<close>: the occurrences are replaced from the
      left, without overlap. (The sources never pass an empty \<open>old\<close>; the text is then
      returned as it is.)\<close>
  "replace old new s =
     (if old = [] \<or> s = [] then s
      else if startswith s old then new @ replace old new (drop (length old) s)
      else hd s # replace old new (tl s))"
  by pat_completeness auto
termination
  by (relation "measure (\<lambda>(old, new, s). length s)") (auto simp: Suc_le_eq)

definition digit_val :: "char \<Rightarrow> int" where
  \<comment> \<open>the value of a decimal digit\<close>
  "digit_val c =
     (case map_of (zip ''0123456789'' [0, 1, 2, 3, 4, 5, 6, 7, 8, 9]) c of
        Some d \<Rightarrow> d
      | None \<Rightarrow> 0)"

definition digits_val :: "string \<Rightarrow> int" where
  \<comment> \<open>the number a string of decimal digits writes\<close>
  "digits_val ds = foldl (\<lambda>a c. 10 * a + digit_val c) 0 ds"

definition py_float :: "string \<Rightarrow> rat option" where
  \<comment> \<open>\<open>float(s)\<close> on decimal literals: optional white space around, an optional sign, digits
      with an optional point; \<open>None\<close> stands for \<open>ValueError\<close>. The value is the exact decimal
      (a Python float is the double nearest to it). Exponents, \<open>inf\<close>, \<open>nan\<close> and digit
      groups with underscores, which \<open>float\<close> also reads, are not modelled.\<close>
  "py_float s0 =
     (let s = strip s0;
          (sgn, u) = (case s of
                        c # r \<Rightarrow> if c = CHR ''-'' then (- 1, r)
                                 else if c = CHR ''+'' then (1, r) else (1, s)
                      | [] \<Rightarrow> (1, s));
          ip = takeWhile is_digit u;
          r = dropWhile is_digit u
      in case r of
           [] \<Rightarrow> if ip = [] then None else Some (sgn * of_int (digits_val ip))
         | c # fr \<Rightarrow>
             if c = CHR ''.'' \<and> list_all is_digit fr \<and> (ip \<noteq> [] \<or> fr \<noteq> [])
             then Some (sgn * (of_int (digits_val ip)
                               + of_int (digits_val fr) / 10 ^ length fr))
             else None)"

definition strip_accents :: "string \<Rightarrow> string" where
  \<comment> \<open>\<open>unicodedata.normalize("NFKD", s)\<close> with the combining characters removed. On ASCII
      text the normal form is the text itself and no character is combining; accented
      letters are outside the model and left as they are.\<close>
  "strip_accents s = s"

section \<open>Composition extractor: helpers (app/bases/sinapi/composicoes\_parser.py)\<close>

definition limpar :: "string option \<Rightarrow> string" where
  "limpar x = (case x of None \<Rightarrow> [] | Some s \<Rightarrow> strip (replace_char (CHR 0x0D) [CHR 0x0A] s))"

definition colapsar_espacos :: "string \<Rightarrow> string" where
  "colapsar_espacos s = strip (collapse_ws (replace_char (CHR 0x0A) '' '' s))"

definition strip_accents_upper :: "string \<Rightarrow> string" where
  "strip_accents_upper s0 =
     (let s = colapsar_espacos s0 in if s = [] then [] else upper (strip_accents s))"

definition norm_code :: "string \<Rightarrow> string" where
  "norm_code s = replace_char (CHR '' '') [] (strip_accents_upper s)"

definition norm_bank :: "string \<Rightarrow> string" where
  "norm_bank s = replace_char (CHR '' '') [] (strip_accents_upper s)"

definition prefix_match :: "string \<Rightarrow> string \<Rightarrow> int \<Rightarrow> int \<Rightarrow> bool" where
  \<comment> \<open>\<open>_prefix_match(a, b, max_missing=, min_len=)\<close>\<close>
  "prefix_match a0 b0 max_missing min_len =
     (let a = norm_code a0; b = norm_code b0 in
      if a = [] \<or> b = [] then False
      else if min (int (length a)) (int (length b)) < min_len then False
      else if \<bar>int (length a) - int (length b)\<bar> > max_missing then False
      else startswith a b \<or> startswith b a)"





definition parse_pt_number :: "string \<Rightarrow> rat option" where
  "parse_pt_number s0 =
     (let s = colapsar_espacos s0 in
      if s = [] then None
      else py_float (replace_char (CHR '','') ''.'' (replace_char (CHR ''.'') [] s)))"

section \<open>Numbers in Brazilian format (app/core/money.py)\<close>

definition at_end :: "string \<Rightarrow> bool" where
  \<comment> \<open>the anchor \<open>$\<close>: the end of the text, or just before a final newline\<close>
  "at_end r = (r = [] \<or> r = [CHR 0x0A])"

definition opt_decimals :: "string \<Rightarrow> bool" where
  \<comment> \<open>\<open>(?:,\d+)?$\<close>\<close>
  "opt_decimals r =
     (at_end r \<or>
      (case r of
         c # t \<Rightarrow> c = CHR '','' \<and> takeWhile is_digit t \<noteq> [] \<and> at_end (dropWhile is_digit t)
       | [] \<Rightarrow> False))"

fun thousands :: "string \<Rightarrow> bool" where
  \<comment> \<open>\<open>(?:\.\d{3})*(?:,\d+)?$\<close>\<close>
  "thousands (p # a # b # c # r) =
     (if p = CHR ''.'' \<and> is_digit a \<and> is_digit b \<and> is_digit c then thousands r
      else opt_decimals (p # a # b # c # r))"
| "thousands r = opt_decimals r"

definition PTBR_RE_match :: "string \<Rightarrow> bool" where
  \<comment> \<open>\<open>_PTBR_RE.match(s)\<close> for
      \<open>-?\d{1,3}(?:\.\d{3})*(?:,\d+)?$|-?\d+(?:,\d+)?$\<close>: after the optional minus sign the
      digits up to the first other character are counted; the first alternative needs one to
      three of them, the second any positive number\<close>
  "PTBR_RE_match s0 =
     (let s = (case s0 of c # r \<Rightarrow> if c = CHR ''-'' then r else s0 | [] \<Rightarrow> s0);
          n = length (takeWhile is_digit s);
          r = dropWhile is_digit s
      in (1 \<le> n \<and> n \<le> 3 \<and> thousands r) \<or> (1 \<le> n \<and> opt_decimals r))"

definition parse_ptbr_number :: "string option \<Rightarrow> rat option" where
  "parse_ptbr_number value =
     (case value of
        None \<Rightarrow> None
      | Some v \<Rightarrow>
          let s = replace_char (CHR '' '') [] (replace ''R$'' [] (strip v)) in
          if s = [] then None
          else if \<not> PTBR_RE_match s then None
          else py_float (replace_char (CHR '','') ''.'' (replace_char (CHR ''.'') [] s)))"

section \<open>Line sanitizer (app/core/sanitizer.py)\<close>

definition normalize_space :: "string \<Rightarrow> string" where
  "normalize_space s = squeeze_ws (strip (replace_char (CHR 0xA0) '' '' s))"

definition merge_markers :: "string list \<Rightarrow> string list \<Rightarrow> string list" where
  \<comment> \<open>\<open>dict.fromkeys\<close> keeps the first occurrence of each marker; the sort by length,
      longest first, is stable\<close>
  "merge_markers static dynamic =
     (let dyn = filter (\<lambda>m. m \<noteq> [] \<and> strip m \<noteq> []) dynamic;
          merged = rev (remdups (rev (filter (\<lambda>m. m \<noteq> [] \<and> strip m \<noteq> []) static @ dyn)))
      in sort_key (\<lambda>m. - int (length m)) merged)"

fun earliest_cut :: "string \<Rightarrow> string list \<Rightarrow> nat option \<Rightarrow> nat option" where
  \<comment> \<open>the loop of \<open>clean_inline\<close> over the markers, \<open>cut_idx\<close> as the accumulator\<close>
  "earliest_cut s [] cut_idx = cut_idx"
| "earliest_cut s (m # ms) cut_idx =
     (case find_str s m of
        None \<Rightarrow> earliest_cut s ms cut_idx
      | Some idx \<Rightarrow>
          earliest_cut s ms (case cut_idx of None \<Rightarrow> Some idx | Some c \<Rightarrow> Some (min c idx)))"

definition clean_inline :: "string \<Rightarrow> string list \<Rightarrow> string list \<Rightarrow> string" where
  "clean_inline text strip_inline_from dynamic_markers =
     (let s = normalize_space text;
          markers = merge_markers strip_inline_from dynamic_markers
      in if s = [] \<or> markers = [] then s
         else case earliest_cut s markers None of
                None \<Rightarrow> normalize_space s
              | Some cut_idx \<Rightarrow> normalize_space (rstrip (take cut_idx s)))"



section \<open>Budget items and their arithmetic (app/bases/sinapi/parser.py)\<close>
















subsection \<open>Group totals\<close>








subsection \<open>Building the budget tree\<close>

text \<open>
  \<open>_parse_orcamento_sintetico\<close> builds the tree from dictionaries that are shared between
  the stack of open nodes and the children lists. Here the dictionaries live in a store, a
  list of nodes addressed by position (the root at 0), and a children list holds positions.
  The stack is a list with the top first. Of a node only the entries \<open>push_node\<close> reads and
  writes are kept.
\<close>

datatype py_error = IndexError | ValueError

record tree_node =
  tn_tipo :: string
  tn_item :: string
  tn_filhos :: "nat list"

record build_state =
  stack :: "(nat \<times> nat) list"
  store :: "tree_node list"
  last_item_node :: "nat option"

definition count_dots :: "string \<Rightarrow> nat" where
  \<comment> \<open>\<open>node["item"].count(".")\<close>\<close>
  "count_dots s = length (filter (\<lambda>c. c = CHR ''.'') s)"

definition push_node :: "build_state \<Rightarrow> tree_node \<Rightarrow> py_error + build_state" where
  \<comment> \<open>the new node gets the next free position of the store; \<open>stack[-1]\<close> on an empty
      stack raises \<open>IndexError\<close>\<close>
  "push_node st node =
     (let level = count_dots (tn_item node) + 1;
          stk = dropWhile (\<lambda>e. fst e \<ge> level) (stack st)
      in case stk of
           [] \<Rightarrow> Inl IndexError
         | open_entry # _ \<Rightarrow>
             let parent = snd open_entry;
                 r = length (store st);
                 p = store st ! parent
             in Inr \<lparr>stack = (level, r) # stk,
                     store = (store st)[parent := p\<lparr>tn_filhos := tn_filhos p @ [r]\<rparr>] @ [node],
                     last_item_node =
                       (if tn_tipo node = ''item'' then Some r else last_item_node st)\<rparr>)"

fun push_nodes :: "build_state \<Rightarrow> tree_node list \<Rightarrow> py_error + build_state" where
  \<comment> \<open>the calls of \<open>push_node\<close> of one run, in order\<close>
  "push_nodes st [] = Inr st"
| "push_nodes st (n # ns) =
     (case push_node st n of Inl e \<Rightarrow> Inl e | Inr st' \<Rightarrow> push_nodes st' ns)"

definition init_state :: build_state where
  \<comment> \<open>\<open>root = {"tipo": "raiz", "filhos": []}\<close>, \<open>stack = [(0, root)]\<close>\<close>
  "init_state =
     \<lparr>stack = [(0, 0)],
      store = [\<lparr>tn_tipo = ''raiz'', tn_item = [], tn_filhos = []\<rparr>],
      last_item_node = None\<rparr>"

definition new_node :: "string \<Rightarrow> string \<Rightarrow> tree_node" where
  \<comment> \<open>a node as the builder passes it to \<open>push_node\<close>: no children yet\<close>
  "new_node tp it = \<lparr>tn_tipo = tp, tn_item = it, tn_filhos = []\<rparr>"

text \<open>The parent and the depth of a node, read off the children lists of the store.\<close>

definition parent_of :: "tree_node list \<Rightarrow> nat \<Rightarrow> nat option" where
  "parent_of sto r = find (\<lambda>p. r \<in> set (tn_filhos (sto ! p))) [0..<length sto]"

function node_depth :: "tree_node list \<Rightarrow> nat \<Rightarrow> nat" where
  "node_depth sto r =
     (case parent_of sto r of
        None \<Rightarrow> 0
      | Some p \<Rightarrow> if p < r then Suc (node_depth sto p) else 0)"
  by pat_completeness auto
termination
  by (relation "measure (\<lambda>(sto, r). r)") auto

declare node_depth.simps [simp del]

section \<open>Auxiliary predicates\<close>

text \<open>
  A text is tidy when it is what \<open>_normalize_space\<close> returns: no no-break space, no two
  white-space characters in a row, none at either end.
\<close>

fun no_run :: "string \<Rightarrow> bool" where
  "no_run (c # d # s) = (\<not> (is_space c \<and> is_space d) \<and> no_run (d # s))"
| "no_run s = True"

definition tidy :: "string \<Rightarrow> bool" where
  "tidy s = (CHR 0xA0 \<notin> set s \<and> no_run s
             \<and> (s \<noteq> [] \<longrightarrow> \<not> is_space (hd s) \<and> \<not> is_space (last s)))"

text \<open>
  What holds of the stack and the store between two calls of \<open>push_node\<close>: the root is at
  the bottom of the stack with level 0, the levels grow strictly towards the top, an open
  node is no deeper in the tree than its level, and children come after their parents in
  the store.
\<close>

definition wf_state :: "build_state \<Rightarrow> bool" where
  "wf_state st =
     (stack st \<noteq> [] \<and> last (stack st) = (0, 0)
      \<and> sorted_wrt (\<lambda>a b. fst a > fst b) (stack st)
      \<and> (\<forall>e \<in> set (stack st).
            snd e < length (store st) \<and> node_depth (store st) (snd e) \<le> fst e)
      \<and> (\<forall>p < length (store st). \<forall>c \<in> set (tn_filhos (store st ! p)).
            p < c \<and> c < length (store st)))"

section \<open>Properties\<close>

subsection \<open>Character classes\<close>

lemma is_space_space: "is_space (CHR '' '')"
  by (simp add: is_space_def)

lemma is_space_LF: "is_space (CHR 0x0A)"
  by (simp add: is_space_def)

subsection \<open>Substrings\<close>

lemma startswith_take: "startswith s m = (take (length m) s = m)"
  by (induction s m rule: startswith.induct) auto

lemma startswith_Nil [simp]: "startswith [] m = (m = [])"
  by (cases m) auto


lemma contains_take: "contains (take n s) m \<Longrightarrow> contains s m"
proof (induction s arbitrary: n)
  case Nil then show ?case by simp
next
  case (Cons c s)
  show ?case
  proof (cases n)
    case 0 with Cons.prems show ?thesis by (cases m) auto
  next
    case (Suc k)
    with Cons.prems have "startswith (c # take k s) m \<or> contains (take k s) m" by simp
    then show ?thesis
    proof
      assume "startswith (c # take k s) m"
      then have "take (length m) (c # take k s) = m" by (simp add: startswith_take)
      then have "take (length m) (c # s) = m"
        by (metis append_eq_conv_conj append_take_drop_id take_Suc_Cons take_take min.cobounded1 min_def length_take take_all_iff)
      then show ?thesis by (simp add: startswith_take)
    next
      assume "contains (take k s) m"
      then show ?thesis using Cons.IH by auto
    qed
  qed
qed


subsection \<open>Normalised white space\<close>


lemma no_run_squeeze: "no_run (squeeze_ws s)"
proof (induction s rule: squeeze_ws.induct)
  case 1 show ?case by simp
next
  case (2 c s)
  show ?case
  proof (cases "is_space c \<and> takeWhile is_space s \<noteq> []")
    case True
    let ?r = "dropWhile is_space s"
    have "no_run (squeeze_ws ?r)" using 2 True by simp
    moreover have "squeeze_ws ?r = [] \<or> \<not> is_space (hd (squeeze_ws ?r))"
    proof (cases ?r)
      case Nil then show ?thesis by (simp del: dropWhile_eq_Nil_conv)
    next
      case (Cons d t)
      then have "\<not> is_space d" by (metis hd_dropWhile list.sel(1) list.distinct(1))
      then show ?thesis using Cons by (simp del: dropWhile_eq_Nil_conv)
    qed
    ultimately have "no_run (CHR '' '' # squeeze_ws ?r)"
      by (cases "squeeze_ws ?r") auto
    then show ?thesis using True by simp
  next
    case False
    then have eq: "squeeze_ws (c # s) = c # squeeze_ws s" by auto
    have ih: "no_run (squeeze_ws s)" using 2 False by auto
    show ?thesis
    proof (cases s)
      case Nil then show ?thesis using eq by simp
    next
      case (Cons d t)
      show ?thesis
      proof (cases "is_space c")
        case True
        with False Cons have nd: "\<not> is_space d" by auto
        then have "squeeze_ws s = d # squeeze_ws t" using Cons by simp
        then show ?thesis using eq ih nd by simp
      next
        case nc: False
        then show ?thesis using eq ih by (cases "squeeze_ws s") auto
      qed
    qed
  qed
qed

lemma set_squeeze: "set (squeeze_ws s) \<subseteq> insert (CHR '' '') (set s)"
proof (induction s rule: squeeze_ws.induct)
  case 1 show ?case by simp
next
  case (2 c s)
  have "set (dropWhile is_space s) \<subseteq> set s" by (simp add: set_dropWhileD subsetI)
  with 2 show ?case by (auto split: if_splits)
qed

lemma squeeze_Nil_iff: "(squeeze_ws s = []) = (s = [])"
  by (cases s) auto

lemma hd_squeeze: "s \<noteq> [] \<Longrightarrow> \<not> is_space (hd s) \<Longrightarrow> hd (squeeze_ws s) = hd s"
  by (cases s) auto

lemma last_squeeze: "s \<noteq> [] \<Longrightarrow> \<not> is_space (last s) \<Longrightarrow> \<not> is_space (last (squeeze_ws s))"
proof (induction s rule: squeeze_ws.induct)
  case 1 then show ?case by simp
next
  case (2 c s)
  show ?case
  proof (cases "is_space c \<and> takeWhile is_space s \<noteq> []")
    case True
    let ?r = "dropWhile is_space s"
    have sne: "s \<noteq> []" using True by auto
    have "\<not> is_space (last s)" using "2.prems" sne by simp
    then have rne: "?r \<noteq> []" using sne
      by (metis dropWhile_eq_Nil_conv last_in_set)
    then have "last ?r = last s"
      by (metis last_appendR takeWhile_dropWhile_id)
    then have "\<not> is_space (last ?r)" using \<open>\<not> is_space (last s)\<close> by simp
    from "2.IH"(1)[OF True rne this] have "\<not> is_space (last (squeeze_ws ?r))" .
    moreover have "squeeze_ws (c # s) = CHR '' '' # squeeze_ws ?r" using True by simp
    moreover have "squeeze_ws ?r \<noteq> []" using rne squeeze_Nil_iff by blast
    ultimately show ?thesis by simp
  next
    case False
    then have eq: "squeeze_ws (c # s) = c # squeeze_ws s" by auto
    show ?thesis
    proof (cases "s = []")
      case True then show ?thesis using "2.prems" by simp
    next
      case sne: False
      with "2.prems" have "\<not> is_space (last s)" by simp
      with 2 False sne have "\<not> is_space (last (squeeze_ws s))" by auto
      then show ?thesis using eq sne by (simp add: squeeze_Nil_iff)
    qed
  qed
qed

lemma strip_ends: "strip s \<noteq> [] \<Longrightarrow> \<not> is_space (hd (strip s)) \<and> \<not> is_space (last (strip s))"
proof -
  assume ne: "strip s \<noteq> []"
  let ?l = "dropWhile is_space s"
  have st: "strip s = rev (dropWhile is_space (rev ?l))" by (simp add: strip_def rstrip_def lstrip_def)
  have "?l = [] \<Longrightarrow> strip s = []" unfolding st by (simp del: dropWhile_eq_Nil_conv)
  then have lne: "?l \<noteq> []" using ne by blast
  have "\<not> is_space (hd (dropWhile is_space (rev ?l)))" using ne st by (metis hd_dropWhile rev_is_Nil_conv)
  then have last: "\<not> is_space (last (strip s))" using st ne by (simp add: last_rev)
  obtain k where k: "strip s = take k ?l"
    by (metis st append_eq_conv_conj rev_append rev_rev_ident takeWhile_dropWhile_id)
  then have "hd (strip s) = hd ?l" using ne by (cases k; cases ?l) auto
  moreover have "\<not> is_space (hd ?l)" using lne by (metis hd_dropWhile)
  ultimately show ?thesis using last by simp
qed

lemma replace_char_absent: "old \<notin> set s \<Longrightarrow> replace_char old new s = s"
  by (induction s) auto

lemma set_replace_char: "set (replace_char old new s) \<subseteq> (set s - {old}) \<union> set new"
  by (induction s) auto

lemma rstrip_take: "\<exists>k. rstrip s = take k s"
proof -
  have "rev s = takeWhile is_space (rev s) @ dropWhile is_space (rev s)" by simp
  then have "s = rstrip s @ rev (takeWhile is_space (rev s))"
    unfolding rstrip_def by (metis rev_append rev_rev_ident)
  then show ?thesis by (metis append_eq_conv_conj)
qed

lemma set_strip: "set (strip s) \<subseteq> set s"
proof -
  have "set (rstrip (lstrip s)) \<subseteq> set (lstrip s)"
    using rstrip_take[of "lstrip s"] by (metis set_take_subset)
  moreover have "set (lstrip s) \<subseteq> set s"
    unfolding lstrip_def by (simp add: set_dropWhileD subsetI)
  ultimately show ?thesis unfolding strip_def by blast
qed



lemma strip_Nil [simp]: "strip [] = []"
  by (simp add: strip_def lstrip_def rstrip_def)

lemma tidy_normalize: "tidy (normalize_space s)"
proof -
  let ?r = "replace_char (CHR 0xA0) '' '' s"
  have "CHR 0xA0 \<notin> set ?r" using set_replace_char[of "CHR 0xA0" "'' ''" s] by auto
  then have "CHR 0xA0 \<notin> set (strip ?r)" using set_strip by blast
  then have 1: "CHR 0xA0 \<notin> set (squeeze_ws (strip ?r))" using set_squeeze[of "strip ?r"] by auto
  have 2: "no_run (squeeze_ws (strip ?r))" by (rule no_run_squeeze)
  have 3: "squeeze_ws (strip ?r) \<noteq> [] \<longrightarrow>
           \<not> is_space (hd (squeeze_ws (strip ?r))) \<and> \<not> is_space (last (squeeze_ws (strip ?r)))"
  proof
    assume "squeeze_ws (strip ?r) \<noteq> []"
    then have ne: "strip ?r \<noteq> []" using squeeze_Nil_iff by blast
    from strip_ends[OF ne] hd_squeeze[OF ne] last_squeeze[OF ne]
    show "\<not> is_space (hd (squeeze_ws (strip ?r))) \<and> \<not> is_space (last (squeeze_ws (strip ?r)))"
      by simp
  qed
  show ?thesis unfolding tidy_def normalize_space_def using 1 2 3 by blast
qed





subsection \<open>Truncation at inline markers\<close>




lemma clean_inline_tidy: "tidy (clean_inline text sif dyn)"
  by (auto simp: clean_inline_def Let_def tidy_normalize split: option.splits)







subsection \<open>White space around a text without inner white space\<close>

lemma replace_absent: "\<not> contains s old \<Longrightarrow> replace old new s = s"
proof (induction old new s rule: replace.induct)
  case (1 old new s)
  show ?case
  proof (cases "old = [] \<or> s = []")
    case True then show ?thesis by simp
  next
    case False
    then obtain c t where s: "s = c # t" by (cases s) auto
    from "1.prems" s have ns: "\<not> startswith s old" and nt: "\<not> contains t old" by auto
    from "1.IH"(2)[OF False ns] nt s have "replace old new t = t" by simp
    then show ?thesis using False ns s by simp
  qed
qed

lemma contains_drop: "contains (drop n s) m \<Longrightarrow> contains s m"
proof (induction s arbitrary: n)
  case Nil then show ?case by simp
next
  case (Cons c s)
  then show ?case by (cases n) auto
qed

lemma rstrip_contains: "contains (rstrip s) m \<Longrightarrow> contains s m"
  using rstrip_take[of s] contains_take by metis

lemma lstrip_contains: "contains (lstrip s) m \<Longrightarrow> contains s m"
proof -
  have "lstrip s = drop (length (takeWhile is_space s)) s"
    unfolding lstrip_def by (simp add: dropWhile_eq_drop)
  then show "contains (lstrip s) m \<Longrightarrow> contains s m" using contains_drop by metis
qed

lemma strip_contains: "contains (strip s) m \<Longrightarrow> contains s m"
  unfolding strip_def using rstrip_contains lstrip_contains by blast

lemma collapse_ws_no_space: "\<forall>c\<in>set s. \<not> is_space c \<Longrightarrow> collapse_ws s = s"
  by (induction s) auto

lemma collapse_ws_core_tail:
  "\<forall>c\<in>set u. \<not> is_space c \<Longrightarrow> \<forall>c\<in>set b. is_space c
     \<Longrightarrow> collapse_ws (u @ b) = u @ (if b = [] then [] else '' '')"
proof (induction u)
  case Nil
  show ?case
  proof (cases b)
    case Nil then show ?thesis by simp
  next
    case (Cons x y)
    with Nil.prems have "is_space x" "dropWhile is_space y = []" by simp_all
    then show ?thesis using Cons by (simp del: dropWhile_eq_Nil_conv)
  qed
next
  case (Cons c u) then show ?case by simp
qed

lemma rstrip_core_tail:
  "\<forall>c\<in>set u. \<not> is_space c \<Longrightarrow> \<forall>c\<in>set b. is_space c \<Longrightarrow> rstrip (u @ b) = u"
proof -
  assume u: "\<forall>c\<in>set u. \<not> is_space c" and b: "\<forall>c\<in>set b. is_space c"
  have "dropWhile is_space (rev b @ rev u) = dropWhile is_space (rev u)"
    using b by (simp add: dropWhile_append)
  also have "\<dots> = rev u"
  proof -
    have "\<forall>c\<in>set (rev u). \<not> is_space c" using u by simp
    then show ?thesis by (cases "rev u") auto
  qed
  finally show ?thesis by (simp add: rstrip_def)
qed

lemma lstrip_collapse: "lstrip (collapse_ws t) = collapse_ws (lstrip t)"
proof (cases t)
  case Nil then show ?thesis by (simp add: lstrip_def)
next
  case (Cons c r)
  show ?thesis
  proof (cases "is_space c")
    case False
    then show ?thesis using Cons by (simp add: lstrip_def)
  next
    case True
    let ?d = "dropWhile is_space r"
    have sp: "is_space (CHR '' '')" by (rule is_space_space)
    have "lstrip (collapse_ws ?d) = collapse_ws ?d"
    proof (cases ?d)
      case Nil then show ?thesis by (simp add: lstrip_def del: dropWhile_eq_Nil_conv)
    next
      case (Cons x y)
      then have "\<not> is_space x" by (metis hd_dropWhile list.sel(1) list.distinct(1))
      then show ?thesis using Cons by (simp add: lstrip_def del: dropWhile_eq_Nil_conv)
    qed
    then show ?thesis using Cons True sp by (simp add: lstrip_def)
  qed
qed

lemma strip_decomp:
  assumes "\<forall>c\<in>set (strip v). \<not> is_space c"
  shows "\<exists>b. lstrip v = strip v @ b \<and> (\<forall>c\<in>set b. is_space c)"
proof -
  let ?l = "lstrip v"
  have "rev ?l = takeWhile is_space (rev ?l) @ dropWhile is_space (rev ?l)" by simp
  then have "?l = rstrip ?l @ rev (takeWhile is_space (rev ?l))"
    unfolding rstrip_def by (metis rev_append rev_rev_ident)
  moreover have "\<forall>c\<in>set (rev (takeWhile is_space (rev ?l))). is_space c"
    by (auto dest: set_takeWhileD)
  ultimately show ?thesis unfolding strip_def by blast
qed

lemma colapsar_no_inner_space:
  assumes ns: "\<forall>c\<in>set (strip v). \<not> is_space c"
  shows "colapsar_espacos v = strip v"
proof -
  let ?g = "\<lambda>c. if c = CHR 0x0A then CHR '' '' else c"
  have rc: "\<And>s. replace_char (CHR 0x0A) '' '' s = map ?g s"
  proof -
    fix s show "replace_char (CHR 0x0A) '' '' s = map ?g s" by (induction s) auto
  qed
  have g_sp: "\<And>c. is_space (?g c) = is_space c"
  proof -
    fix c show "is_space (?g c) = is_space c"
      by (cases "c = CHR 0x0A") (simp_all add: is_space_space is_space_LF)
  qed
  have g_id: "\<And>c. \<not> is_space c \<Longrightarrow> ?g c = c"
  proof -
    fix c assume "\<not> is_space c"
    then have "c \<noteq> CHR 0x0A" using is_space_LF by blast
    then show "?g c = c" by simp
  qed
  from strip_decomp[OF ns] obtain b where b: "lstrip v = strip v @ b" "\<forall>c\<in>set b. is_space c"
    by blast
  have "lstrip (map ?g v) = map ?g (lstrip v)"
    unfolding lstrip_def by (simp add: dropWhile_map o_def g_sp)
  also have "\<dots> = map ?g (strip v) @ map ?g b" using b(1) by simp
  also have "map ?g (strip v) = strip v" using ns g_id by (simp add: map_idI)
  finally have l: "lstrip (map ?g v) = strip v @ map ?g b" .
  have gb: "\<forall>c\<in>set (map ?g b). is_space c"
  proof
    fix c assume "c \<in> set (map ?g b)"
    then obtain d where "d \<in> set b" "c = ?g d" by auto
    then show "is_space c" using b(2) g_sp[of d] by simp
  qed
  have "colapsar_espacos v = rstrip (lstrip (collapse_ws (map ?g v)))"
    by (simp add: colapsar_espacos_def strip_def rc)
  also have "\<dots> = rstrip (collapse_ws (strip v @ map ?g b))" by (simp only: lstrip_collapse l)
  also have "\<dots> = rstrip (strip v @ (if map ?g b = [] then [] else '' ''))"
    by (simp only: collapse_ws_core_tail[OF ns gb])
  also have "\<dots> = strip v"
    by (rule rstrip_core_tail[OF ns]) (simp add: is_space_space)
  finally show ?thesis .
qed

subsection \<open>Sums over the budget tree\<close>



subsection \<open>The store of tree nodes\<close>

lemma find_unique:
  "a \<in> set xs \<Longrightarrow> \<forall>x\<in>set xs. P x = (x = a) \<Longrightarrow> find P xs = Some a"
  by (induction xs) auto

lemma find_app:
  "find P (xs @ ys) = (case find P xs of None \<Rightarrow> find P ys | Some x \<Rightarrow> Some x)"
  by (induction xs) auto

lemma parent_of_new:
  assumes par: "parent < length sto"
    and kids: "\<forall>p < length sto. \<forall>c \<in> set (tn_filhos (sto ! p)). c < length sto"
    and nf: "tn_filhos node = []"
  shows "parent_of (sto[parent := (sto ! parent)\<lparr>tn_filhos := tn_filhos (sto ! parent) @ [length sto]\<rparr>] @ [node])
           (length sto) = Some parent"
proof -
  let ?n = "length sto"
  let ?sto' = "sto[parent := (sto ! parent)\<lparr>tn_filhos := tn_filhos (sto ! parent) @ [?n]\<rparr>] @ [node]"
  have "\<forall>p\<in>set [0..<length ?sto']. (?n \<in> set (tn_filhos (?sto' ! p))) = (p = parent)"
  proof
    fix p assume "p \<in> set [0..<length ?sto']"
    then have p: "p \<le> ?n" by auto
    show "(?n \<in> set (tn_filhos (?sto' ! p))) = (p = parent)"
    proof (cases "p = ?n")
      case True
      then show ?thesis using par nf by (simp add: nth_append)
    next
      case False
      with p have pl: "p < ?n" by simp
      show ?thesis
      proof (cases "p = parent")
        case True
        then show ?thesis using par by (simp add: nth_append)
      next
        case np: False
        have "?sto' ! p = sto ! p" using pl np by (simp add: nth_append)
        moreover have "?n \<notin> set (tn_filhos (sto ! p))" using kids pl by auto
        ultimately show ?thesis using np by simp
      qed
    qed
  qed
  moreover have "parent \<in> set [0..<length ?sto']" using par by simp
  ultimately show ?thesis unfolding parent_of_def by (rule find_unique[rotated])
qed

lemma parent_of_old:
  assumes par: "parent < length sto"
    and nf: "tn_filhos node = []"
    and c: "c \<noteq> length sto"
  shows "parent_of (sto[parent := (sto ! parent)\<lparr>tn_filhos := tn_filhos (sto ! parent) @ [length sto]\<rparr>] @ [node]) c
           = parent_of sto c"
proof -
  let ?n = "length sto"
  let ?sto' = "sto[parent := (sto ! parent)\<lparr>tn_filhos := tn_filhos (sto ! parent) @ [?n]\<rparr>] @ [node]"
  have eq: "\<And>p. p < ?n \<Longrightarrow> (c \<in> set (tn_filhos (?sto' ! p))) = (c \<in> set (tn_filhos (sto ! p)))"
  proof -
    fix p assume pl: "p < ?n"
    show "(c \<in> set (tn_filhos (?sto' ! p))) = (c \<in> set (tn_filhos (sto ! p)))"
      using pl c by (cases "p = parent") (auto simp: nth_append)
  qed
  have last: "\<not> c \<in> set (tn_filhos (?sto' ! ?n))" using nf by (simp add: nth_append)
  have "find (\<lambda>p. c \<in> set (tn_filhos (?sto' ! p))) [0..<?n]
      = find (\<lambda>p. c \<in> set (tn_filhos (sto ! p))) [0..<?n]"
    by (rule find_cong) (auto simp: eq)
  then show ?thesis unfolding parent_of_def using last
    by (simp add: find_app split: option.splits)
qed

lemma node_depth_old:
  assumes par: "parent < length sto"
    and nf: "tn_filhos node = []"
  shows "c < length sto \<Longrightarrow>
    node_depth (sto[parent := (sto ! parent)\<lparr>tn_filhos := tn_filhos (sto ! parent) @ [length sto]\<rparr>] @ [node]) c
      = node_depth sto c"
proof (induction c rule: less_induct)
  case (less c)
  let ?sto' = "sto[parent := (sto ! parent)\<lparr>tn_filhos := tn_filhos (sto ! parent) @ [length sto]\<rparr>] @ [node]"
  have po: "parent_of ?sto' c = parent_of sto c"
    using parent_of_old[OF par nf] less.prems by simp
  show ?case
  proof (cases "parent_of sto c")
    case None
    then show ?thesis using po by (simp add: node_depth.simps[of _ c])
  next
    case (Some p)
    show ?thesis
    proof (cases "p < c")
      case True
      then have "node_depth ?sto' p = node_depth sto p" using less by simp
      then show ?thesis using po Some True
        by (simp add: node_depth.simps[of ?sto' c] node_depth.simps[of sto c])
    next
      case False
      then show ?thesis using po Some
        by (simp add: node_depth.simps[of ?sto' c] node_depth.simps[of sto c])
    qed
  qed
qed

subsection \<open>One push keeps the stack and the store well formed\<close>

lemma wf_init: "wf_state init_state"
proof -
  have "parent_of (store init_state) 0 = None"
    by (simp add: parent_of_def init_state_def)
  then have "node_depth (store init_state) 0 = 0"
    by (simp add: node_depth.simps[of _ 0])
  then show ?thesis by (simp add: wf_state_def init_state_def)
qed

lemma push_node_step:
  assumes wf: "wf_state st" and nf: "tn_filhos node = []"
  shows "\<exists>st' above ent below.
           push_node st node = Inr st' \<and> wf_state st'
           \<and> stack st = above @ ent # below
           \<and> (\<forall>e\<in>set above. fst e \<ge> count_dots (tn_item node) + 1)
           \<and> fst ent < count_dots (tn_item node) + 1
           \<and> stack st' = (count_dots (tn_item node) + 1, length (store st)) # ent # below
           \<and> length (store st') = Suc (length (store st))
           \<and> store st' ! length (store st) = node
           \<and> parent_of (store st') (length (store st)) = Some (snd ent)
           \<and> node_depth (store st') (length (store st)) = Suc (node_depth (store st) (snd ent))
           \<and> node_depth (store st') (length (store st)) \<le> count_dots (tn_item node) + 1"
proof -
  let ?level = "count_dots (tn_item node) + 1"
  let ?P = "\<lambda>e::nat \<times> nat. fst e \<ge> ?level"
  let ?n = "length (store st)"
  let ?stk = "dropWhile ?P (stack st)"
  from wf have ne: "stack st \<noteq> []" and la: "last (stack st) = (0, 0)"
    and so: "sorted_wrt (\<lambda>a b. fst a > fst b) (stack st)"
    and en: "\<forall>e \<in> set (stack st). snd e < ?n \<and> node_depth (store st) (snd e) \<le> fst e"
    and ki: "\<forall>p < ?n. \<forall>c \<in> set (tn_filhos (store st ! p)). p < c \<and> c < ?n"
    unfolding wf_state_def by blast+
  have "last (stack st) \<in> set (stack st)" using ne by simp
  moreover have "\<not> ?P (last (stack st))" using la by simp
  ultimately have "?stk \<noteq> []" by (auto simp: dropWhile_eq_Nil_conv)
  then obtain ent below where stk: "?stk = ent # below" by (cases ?stk) auto
  have "\<not> ?P (hd ?stk)" using \<open>?stk \<noteq> []\<close> by (rule hd_dropWhile)
  then have el: "fst ent < ?level" unfolding stk by simp
  define above where "above = takeWhile ?P (stack st)"
  have dec: "stack st = above @ ent # below"
    unfolding above_def stk[symmetric] by simp
  have ab: "\<forall>e\<in>set above. fst e \<ge> ?level"
    unfolding above_def by (auto dest: set_takeWhileD)
  have ent_in: "ent \<in> set (stack st)" unfolding dec by simp
  have sub: "set (ent # below) \<subseteq> set (stack st)" unfolding dec by auto
  let ?parent = "snd ent"
  have par: "?parent < ?n" using en ent_in by blast
  let ?sto' = "(store st)[?parent := (store st ! ?parent)\<lparr>tn_filhos := tn_filhos (store st ! ?parent) @ [?n]\<rparr>] @ [node]"
  let ?st' = "\<lparr>stack = (?level, ?n) # ent # below, store = ?sto',
               last_item_node = (if tn_tipo node = ''item'' then Some ?n else last_item_node st)\<rparr>"
  have push: "push_node st node = Inr ?st'"
    using stk by (simp add: push_node_def Let_def)
  have kids': "\<forall>p < ?n. \<forall>c \<in> set (tn_filhos (store st ! p)). c < ?n" using ki by blast
  have pn: "parent_of ?sto' ?n = Some ?parent" by (rule parent_of_new[OF par kids' nf])
  have dold: "\<And>c. c < ?n \<Longrightarrow> node_depth ?sto' c = node_depth (store st) c"
    by (rule node_depth_old[OF par nf])
  have dn: "node_depth ?sto' ?n = Suc (node_depth (store st) ?parent)"
    using pn par dold[OF par] by (simp add: node_depth.simps[of ?sto' ?n])
  have dle: "node_depth ?sto' ?n \<le> ?level"
  proof -
    have "node_depth (store st) ?parent \<le> fst ent" using en ent_in by blast
    then show ?thesis using dn el by simp
  qed
  have so': "sorted_wrt (\<lambda>a b. fst a > fst b) (ent # below)"
    using so unfolding dec by (simp add: sorted_wrt_append)
  have below_lt: "\<forall>e\<in>set (ent # below). fst e < ?level"
    using so' el by auto
  have wf': "wf_state ?st'"
    unfolding wf_state_def
  proof (intro conjI)
    show "stack ?st' \<noteq> []" by simp
    show "last (stack ?st') = (0, 0)" using la dec by simp
    show "sorted_wrt (\<lambda>a b. fst a > fst b) (stack ?st')"
      using so' below_lt by auto
    show "\<forall>e \<in> set (stack ?st'). snd e < length (store ?st') \<and> node_depth (store ?st') (snd e) \<le> fst e"
    proof
      fix e assume "e \<in> set (stack ?st')"
      then consider "e = (?level, ?n)" | "e \<in> set (ent # below)" by auto
      then show "snd e < length (store ?st') \<and> node_depth (store ?st') (snd e) \<le> fst e"
      proof cases
        case 1 then show ?thesis using dle by simp
      next
        case 2
        then have "e \<in> set (stack st)" using sub by blast
        then have "snd e < ?n" "node_depth (store st) (snd e) \<le> fst e" using en by auto
        then show ?thesis using dold by simp
      qed
    qed
    show "\<forall>p < length (store ?st'). \<forall>c \<in> set (tn_filhos (store ?st' ! p)). p < c \<and> c < length (store ?st')"
    proof (intro allI impI ballI)
      fix p c assume p: "p < length (store ?st')" and c: "c \<in> set (tn_filhos (store ?st' ! p))"
      show "p < c \<and> c < length (store ?st')"
      proof (cases "p = ?n")
        case True
        then show ?thesis using c nf by (simp add: nth_append)
      next
        case False
        with p have pl: "p < ?n" by simp
        show ?thesis
        proof (cases "p = ?parent")
          case True
          have "store ?st' ! p = (store st ! ?parent)\<lparr>tn_filhos := tn_filhos (store st ! ?parent) @ [?n]\<rparr>"
            using True par by (simp add: nth_append)
          then have "c \<in> set (tn_filhos (store st ! ?parent)) \<or> c = ?n"
            using c by auto
          then show ?thesis
          proof
            assume "c \<in> set (tn_filhos (store st ! ?parent))"
            from ki[rule_format, OF par this] show ?thesis using True by simp
          next
            assume "c = ?n"
            then show ?thesis using True par by simp
          qed
        next
          case np: False
          have "store ?st' ! p = store st ! p" using np pl by (simp add: nth_append)
          then have "c \<in> set (tn_filhos (store st ! p))" using c by simp
          from ki[rule_format, OF pl this] show ?thesis by simp
        qed
      qed
    qed
  qed
  have "length (store ?st') = Suc ?n" by simp
  moreover have "store ?st' ! ?n = node" by (simp add: nth_append)
  ultimately show ?thesis
    using push wf' dec ab el pn dn dle
    by (intro exI[of _ ?st'] exI[of _ above] exI[of _ ent] exI[of _ below]) simp
qed

lemma push_nodes_wf:
  "\<forall>n\<in>set ns. tn_filhos n = [] \<Longrightarrow> wf_state st
     \<Longrightarrow> \<exists>st'. push_nodes st ns = Inr st' \<and> wf_state st'"
proof (induction ns arbitrary: st)
  case Nil then show ?case by simp
next
  case (Cons n ns)
  from Cons.prems have nf: "tn_filhos n = []" by simp
  from push_node_step[OF Cons.prems(2) nf] obtain st1
    where p: "push_node st n = Inr st1" and w: "wf_state st1" by blast
  from Cons.prems(1) have "\<forall>n\<in>set ns. tn_filhos n = []" by simp
  from Cons.IH[OF this w] obtain st' where "push_nodes st1 ns = Inr st'" "wf_state st'" by blast
  then show ?case using p by simp
qed


subsection \<open>Best prefix candidate\<close>











subsection \<open>Line sanitizer\<close>





subsection \<open>Item arithmetic\<close>



subsection \<open>The two number parsers\<close>

text \<open>
  Claim C5, as amended. The extractor's \<open>parse_pt_number\<close> is a second parser, without
  the pattern test and without the removal of a currency prefix and of inner spaces. On a
  text with no currency prefix and no white space inside, whenever the budget parser
  \<open>parse_ptbr_number\<close> returns a number, \<open>parse_pt_number\<close> returns the same number.
  Both are total: they return a number or \<open>None\<close>.
\<close>

theorem parse_pt_number_agrees:
  assumes "parse_ptbr_number (Some v) = Some x"
    and "\<not> contains v ''R$''"
    and "\<forall>c\<in>set (strip v). \<not> is_space c"
  shows "parse_pt_number v = Some x"
proof -
  have sp: "is_space (CHR '' '')" by (rule is_space_space)
  have "\<not> contains (strip v) ''R$''" using assms(2) strip_contains by blast
  then have "replace ''R$'' [] (strip v) = strip v" by (rule replace_absent)
  moreover have "CHR '' '' \<notin> set (strip v)" using assms(3) sp by blast
  ultimately have s: "replace_char (CHR '' '') [] (replace ''R$'' [] (strip v)) = strip v"
    by (simp add: replace_char_absent)
  have c: "colapsar_espacos v = strip v" by (rule colapsar_no_inner_space[OF assms(3)])
  from assms(1) have "strip v \<noteq> []
      \<and> py_float (replace_char (CHR '','') ''.'' (replace_char (CHR ''.'') [] (strip v))) = Some x"
    unfolding parse_ptbr_number_def option.case Let_def s
    by (simp split: if_splits)
  then show ?thesis
    unfolding parse_pt_number_def Let_def c by simp
qed

text \<open>
  The claim C5 as stated fails: the text 12.34 is no number for the budget parser (the
  pattern rejects a point followed by two digits), and the extractor's parser reads it as
  1234.
\<close>

theorem parse_pt_number_differs_counterexample:
  "parse_pt_number ''12.34'' = Some 1234 \<and> parse_ptbr_number (Some ''12.34'') = None"
  by code_simp

theorem parse_pt_number_agrees_witness:
  "parse_ptbr_number (Some '' 1.234,56 '') = Some (30864 / 25)
   \<and> parse_pt_number '' 1.234,56 '' = Some (30864 / 25)"
proof -
  have a: "parse_ptbr_number (Some '' 1.234,56 '') = Some (30864 / 25)" by code_simp
  have b: "\<not> contains '' 1.234,56 '' ''R$''" by code_simp
  have c: "\<forall>c\<in>set (strip '' 1.234,56 ''). \<not> is_space c" by code_simp
  from parse_pt_number_agrees[OF a b c] a show ?thesis by simp
qed

subsection \<open>Group totals\<close>



subsection \<open>Nesting in the budget tree\<close>

text \<open>
  Claim C1, as amended. Every call of \<open>push_node\<close> in a run that starts from the root
  succeeds. The level put on the build stack with the node is the number of dots in its
  item plus one. The entries on top of the stack whose level is not smaller are popped, and
  the parent is the first remaining entry, the nearest open node of strictly smaller level.
  In the tree the node is one deeper than its parent and at most as deep as its level.
\<close>

theorem push_node_nearest_smaller_level:
  assumes "\<forall>n\<in>set nodes. tn_filhos n = []" and "tn_filhos node = []"
  shows "\<exists>st st' above ent below.
           push_nodes init_state nodes = Inr st \<and> push_node st node = Inr st'
           \<and> stack st = above @ ent # below
           \<and> (\<forall>e\<in>set above. fst e \<ge> count_dots (tn_item node) + 1)
           \<and> fst ent < count_dots (tn_item node) + 1
           \<and> stack st' = (count_dots (tn_item node) + 1, length (store st)) # ent # below
           \<and> store st' ! length (store st) = node
           \<and> parent_of (store st') (length (store st)) = Some (snd ent)
           \<and> node_depth (store st') (length (store st)) = Suc (node_depth (store st) (snd ent))
           \<and> node_depth (store st') (length (store st)) \<le> count_dots (tn_item node) + 1"
proof -
  from push_nodes_wf[OF assms(1) wf_init] obtain st
    where a: "push_nodes init_state nodes = Inr st" and w: "wf_state st" by blast
  from push_node_step[OF w assms(2)] a show ?thesis by blast
qed

text \<open>
  The claim C1 as stated fails. After the rows 9, 9.4, 9.5 the row 9.4.1 nests under 9.5,
  the nearest open node of smaller level, not under 9.4. After the row 9 alone, the row
  9.4.1 is a child of 9: its depth in the tree is 2, its dots plus one are 3.
\<close>

theorem push_node_depth_counterexample:
  "push_nodes init_state [new_node ''meta'' ''9'', new_node ''submeta'' ''9.4'',
       new_node ''submeta'' ''9.5'', new_node ''submeta'' ''9.4.1'']
     = Inr \<lparr>stack = [(3, 4), (2, 3), (1, 1), (0, 0)],
            store = [\<lparr>tn_tipo = ''raiz'', tn_item = [], tn_filhos = [1]\<rparr>,
                     \<lparr>tn_tipo = ''meta'', tn_item = ''9'', tn_filhos = [2, 3]\<rparr>,
                     \<lparr>tn_tipo = ''submeta'', tn_item = ''9.4'', tn_filhos = []\<rparr>,
                     \<lparr>tn_tipo = ''submeta'', tn_item = ''9.5'', tn_filhos = [4]\<rparr>,
                     \<lparr>tn_tipo = ''submeta'', tn_item = ''9.4.1'', tn_filhos = []\<rparr>],
            last_item_node = None\<rparr>
   \<and> push_nodes init_state [new_node ''meta'' ''9'', new_node ''submeta'' ''9.4.1'']
     = Inr \<lparr>stack = [(3, 2), (1, 1), (0, 0)],
            store = [\<lparr>tn_tipo = ''raiz'', tn_item = [], tn_filhos = [1]\<rparr>,
                     \<lparr>tn_tipo = ''meta'', tn_item = ''9'', tn_filhos = [2]\<rparr>,
                     \<lparr>tn_tipo = ''submeta'', tn_item = ''9.4.1'', tn_filhos = []\<rparr>],
            last_item_node = None\<rparr>
   \<and> node_depth [\<lparr>tn_tipo = ''raiz'', tn_item = [], tn_filhos = [1]\<rparr>,
                  \<lparr>tn_tipo = ''meta'', tn_item = ''9'', tn_filhos = [2]\<rparr>,
                  \<lparr>tn_tipo = ''submeta'', tn_item = ''9.4.1'', tn_filhos = []\<rparr>] 2 = 2
   \<and> count_dots ''9.4.1'' + 1 = 3"
  by code_simp

theorem push_node_nearest_smaller_level_witness:
  "push_nodes init_state [new_node ''meta'' ''9'', new_node ''submeta'' ''9.4'']
     = Inr \<lparr>stack = [(2, 2), (1, 1), (0, 0)],
            store = [\<lparr>tn_tipo = ''raiz'', tn_item = [], tn_filhos = [1]\<rparr>,
                     \<lparr>tn_tipo = ''meta'', tn_item = ''9'', tn_filhos = [2]\<rparr>,
                     \<lparr>tn_tipo = ''submeta'', tn_item = ''9.4'', tn_filhos = []\<rparr>],
            last_item_node = None\<rparr>
   \<and> push_node \<lparr>stack = [(2, 2), (1, 1), (0, 0)],
            store = [\<lparr>tn_tipo = ''raiz'', tn_item = [], tn_filhos = [1]\<rparr>,
                     \<lparr>tn_tipo = ''meta'', tn_item = ''9'', tn_filhos = [2]\<rparr>,
                     \<lparr>tn_tipo = ''submeta'', tn_item = ''9.4'', tn_filhos = []\<rparr>],
            last_item_node = None\<rparr> (new_node ''item'' ''9.4.1'')
     = Inr \<lparr>stack = [(3, 3), (2, 2), (1, 1), (0, 0)],
            store = [\<lparr>tn_tipo = ''raiz'', tn_item = [], tn_filhos = [1]\<rparr>,
                     \<lparr>tn_tipo = ''meta'', tn_item = ''9'', tn_filhos = [2]\<rparr>,
                     \<lparr>tn_tipo = ''submeta'', tn_item = ''9.4'', tn_filhos = [3]\<rparr>,
                     \<lparr>tn_tipo = ''item'', tn_item = ''9.4.1'', tn_filhos = []\<rparr>],
            last_item_node = Some 3\<rparr>
   \<and> node_depth [\<lparr>tn_tipo = ''raiz'', tn_item = [], tn_filhos = [1]\<rparr>,
                     \<lparr>tn_tipo = ''meta'', tn_item = ''9'', tn_filhos = [2]\<rparr>,
                     \<lparr>tn_tipo = ''submeta'', tn_item = ''9.4'', tn_filhos = [3]\<rparr>,
                     \<lparr>tn_tipo = ''item'', tn_item = ''9.4.1'', tn_filhos = []\<rparr>] 3
       \<le> count_dots ''9.4.1'' + 1"
proof -
  let ?S = "\<lparr>stack = [(2, 2), (1, 1), (0::nat, 0::nat)],
            store = [\<lparr>tn_tipo = ''raiz'', tn_item = [], tn_filhos = [1]\<rparr>,
                     \<lparr>tn_tipo = ''meta'', tn_item = ''9'', tn_filhos = [2]\<rparr>,
                     \<lparr>tn_tipo = ''submeta'', tn_item = ''9.4'', tn_filhos = []\<rparr>],
            last_item_node = None\<rparr>"
  let ?S' = "\<lparr>stack = [(3, 3), (2, 2), (1, 1), (0::nat, 0::nat)],
            store = [\<lparr>tn_tipo = ''raiz'', tn_item = [], tn_filhos = [1]\<rparr>,
                     \<lparr>tn_tipo = ''meta'', tn_item = ''9'', tn_filhos = [2]\<rparr>,
                     \<lparr>tn_tipo = ''submeta'', tn_item = ''9.4'', tn_filhos = [3]\<rparr>,
                     \<lparr>tn_tipo = ''item'', tn_item = ''9.4.1'', tn_filhos = []\<rparr>],
            last_item_node = Some 3\<rparr>"
  have a: "push_nodes init_state [new_node ''meta'' ''9'', new_node ''submeta'' ''9.4''] = Inr ?S"
    by code_simp
  have b: "push_node ?S (new_node ''item'' ''9.4.1'') = Inr ?S'" by code_simp
  have h1: "\<forall>n\<in>set [new_node ''meta'' ''9'', new_node ''submeta'' ''9.4'']. tn_filhos n = []"
    by (simp add: new_node_def)
  have h2: "tn_filhos (new_node ''item'' ''9.4.1'') = []" by (simp add: new_node_def)
  from push_node_nearest_smaller_level[OF h1 h2] obtain st st'
    where "push_nodes init_state [new_node ''meta'' ''9'', new_node ''submeta'' ''9.4''] = Inr st"
      and "push_node st (new_node ''item'' ''9.4.1'') = Inr st'"
      and "node_depth (store st') (length (store st)) \<le> count_dots (tn_item (new_node ''item'' ''9.4.1'')) + 1"
    by blast
  with a b have "node_depth (store ?S') (length (store ?S)) \<le> count_dots (tn_item (new_node ''item'' ''9.4.1'')) + 1"
    by simp
  then have "node_depth (store ?S') 3 \<le> count_dots ''9.4.1'' + 1"
    by (simp add: new_node_def numeral_3_eq_3)
  with a b show ?thesis by simp
qed

end
